theory Spec2Isabelle
  imports Main "HOL-Library.Char_ord" "HOL-Library.List_Lexorder"
begin


section \<open>Characters and character classes\<close>

text \<open>
  The script \<^verbatim>\<open>scripts/make_wordcloud.py\<close> works on Python \<^verbatim>\<open>str\<close> values. A text is
  modelled as a \<^typ>\<open>string\<close>, one \<^typ>\<open>char\<close> per character of the text, so the model
  covers the characters with code below 256. The classes below are those of Python's
  \<^verbatim>\<open>re\<close> module on \<^verbatim>\<open>str\<close> patterns, cut down to that range.
\<close>

definition newline :: char where
  "newline = CHR 0x0A"

definition backslash :: char where
  "backslash = CHR 0x5C"

definition space :: char where
  "space = CHR '' ''"

definition is_upper :: "char \<Rightarrow> bool" where
  \<comment> \<open>the class \<^verbatim>\<open>[A-Z]\<close>\<close>
  "is_upper c \<longleftrightarrow> CHR ''A'' \<le> c \<and> c \<le> CHR ''Z''"

definition is_lower :: "char \<Rightarrow> bool" where
  \<comment> \<open>the class \<^verbatim>\<open>[a-z]\<close>\<close>
  "is_lower c \<longleftrightarrow> CHR ''a'' \<le> c \<and> c \<le> CHR ''z''"

definition is_letter :: "char \<Rightarrow> bool" where
  \<comment> \<open>the class \<^verbatim>\<open>[A-Za-z]\<close>\<close>
  "is_letter c \<longleftrightarrow> is_upper c \<or> is_lower c"

definition is_space :: "char \<Rightarrow> bool" where
  \<comment> \<open>the class \<^verbatim>\<open>\s\<close>, which is also what \<^verbatim>\<open>str.strip()\<close> removes: tab, line feed,
      vertical tab, form feed, carriage return, the four separators 0x1C..0x1F, space,
      next line (0x85) and no-break space (0xA0)\<close>
  "is_space c \<longleftrightarrow>
     c \<in> set [CHR 0x09, CHR 0x0A, CHR 0x0B, CHR 0x0C, CHR 0x0D, CHR 0x1C, CHR 0x1D,
              CHR 0x1E, CHR 0x1F, CHR 0x20, CHR 0x85, CHR 0xA0]"

definition lower_char :: "char \<Rightarrow> char" where
  \<comment> \<open>\<^verbatim>\<open>str.lower()\<close> on one character: the ASCII capitals, and the capitals of the
      upper half of the range (0xC0..0xDE without the multiplication sign 0xD7)\<close>
  "lower_char c =
     (if is_upper c \<or> (CHR 0xC0 \<le> c \<and> c \<le> CHR 0xDE \<and> c \<noteq> CHR 0xD7)
      then char_of (of_char c + (32 :: nat)) else c)"

definition lower :: "string \<Rightarrow> string" where
  "lower s = map lower_char s"

definition strip :: "string \<Rightarrow> string" where
  \<comment> \<open>\<^verbatim>\<open>str.strip()\<close>: white space removed at both ends\<close>
  "strip s = rev (dropWhile is_space (rev (dropWhile is_space s)))"

fun split_on :: "char \<Rightarrow> string \<Rightarrow> string list" where
  \<comment> \<open>\<^verbatim>\<open>text.split(sep)\<close> for a separator of one character: every occurrence of the
      separator ends a field, so the result is never empty and may hold empty fields\<close>
  "split_on sep [] = [[]]"
| "split_on sep (c # cs) =
     (if c = sep then [] # split_on sep cs
      else (case split_on sep cs of
              w # ws \<Rightarrow> (c # w) # ws
            | [] \<Rightarrow> [[c]]))"

fun join :: "string \<Rightarrow> string list \<Rightarrow> string" where
  \<comment> \<open>\<^verbatim>\<open>sep.join(words)\<close>\<close>
  "join sep [] = []"
| "join sep [w] = w"
| "join sep (w # v # ws) = w @ sep @ join sep (v # ws)"


section \<open>LaTeX extraction: \<^verbatim>\<open>_strip_latex\<close>\<close>

text \<open>
  Each \<^verbatim>\<open>re.sub\<close> of the source is a scan from left to right: where the pattern matches
  at the current position the match is replaced by one space and the scan goes on behind
  it, otherwise the current character is kept.
\<close>

function sub_comments :: "bool \<Rightarrow> string \<Rightarrow> string" where
  \<comment> \<open>\<^verbatim>\<open>re.sub(r"(?m)^%.*$", " ", text)\<close>; the flag says that the scan is at the start of
      a line (at the start of the text or behind a line feed); \<^verbatim>\<open>.*\<close> takes the rest of
      the line, the line feed stays\<close>
  "sub_comments bol [] = []"
| "sub_comments bol (c # cs) =
     (if bol \<and> c = CHR ''%''
      then space # sub_comments False (dropWhile (\<lambda>d. d \<noteq> newline) cs)
      else c # sub_comments (c = newline) cs)"
  by pat_completeness auto
termination
  by (relation "measure (\<lambda>(b, s). length s)")
     (auto simp: le_imp_less_Suc length_dropWhile_le)

fun lazy_to :: "char \<Rightarrow> string \<Rightarrow> string option" where
  \<comment> \<open>the pattern \<^verbatim>\<open>.*?X\<close> without \<^verbatim>\<open>re.S\<close>: the text behind the first \<^verbatim>\<open>X\<close>, when no
      line feed comes before it\<close>
  "lazy_to x [] = None"
| "lazy_to x (c # cs) =
     (if c = x then Some cs else if c = newline then None else lazy_to x cs)"

function sub_inline_math :: "string \<Rightarrow> string" where
  \<comment> \<open>\<^verbatim>\<open>re.sub(r"\$.*?\$", " ", text)\<close>\<close>
  "sub_inline_math [] = []"
| "sub_inline_math (c # cs) =
     (if c = CHR ''$'' then
        (case lazy_to (CHR ''$'') cs of
           Some rest \<Rightarrow> space # sub_inline_math rest
         | None \<Rightarrow> c # sub_inline_math cs)
      else c # sub_inline_math cs)"
  by pat_completeness auto
termination
proof -
  have shorter: "length r < length s" if "lazy_to x s = Some r" for x s r
    using that by (induction s) (auto split: if_splits)
  show ?thesis
    by (relation "measure length") (auto dest: shorter)
qed

fun display_close :: "string \<Rightarrow> string option" where
  \<comment> \<open>the pattern \<^verbatim>\<open>.*?\\\]\<close> with \<^verbatim>\<open>re.S\<close>: the text behind the first \<^verbatim>\<open>\]\<close>\<close>
  "display_close (a # b # cs) =
     (if a = backslash \<and> b = CHR '']'' then Some cs else display_close (b # cs))"
| "display_close cs = None"

function sub_display_math :: "string \<Rightarrow> string" where
  \<comment> \<open>\<^verbatim>\<open>re.sub(r"\\\[.*?\\\]", " ", text, flags=re.S)\<close>\<close>
  "sub_display_math (a # b # cs) =
     (if a = backslash \<and> b = CHR ''['' then
        (case display_close cs of
           Some rest \<Rightarrow> space # sub_display_math rest
         | None \<Rightarrow> a # sub_display_math (b # cs))
      else a # sub_display_math (b # cs))"
| "sub_display_math [a] = [a]"
| "sub_display_math [] = []"
  by pat_completeness auto
termination
proof -
  have shorter: "length r < length s" if "display_close s = Some r" for s r
    using that by (induction s rule: display_close.induct) (auto split: if_splits)
  show ?thesis
    by (relation "measure length") (auto dest: shorter)
qed

definition ref_names :: "string list" where
  \<comment> \<open>the alternatives of \<^verbatim>\<open>(cite|ref|label|eqref|footnote|url|href)\<close>, in their order\<close>
  "ref_names = [''cite'', ''ref'', ''label'', ''eqref'', ''footnote'', ''url'', ''href'']"

fun strip_prefix :: "string \<Rightarrow> string \<Rightarrow> string option" where
  \<comment> \<open>a literal at the current position: the text behind it\<close>
  "strip_prefix [] s = Some s"
| "strip_prefix (p # ps) [] = None"
| "strip_prefix (p # ps) (c # cs) = (if p = c then strip_prefix ps cs else None)"

fun match_ref :: "string list \<Rightarrow> string \<Rightarrow> string option" where
  \<comment> \<open>\<^verbatim>\<open>(n1|n2|...)\{.*?\}\<close> behind the backslash: the alternatives are tried in order,
      and the next one is tried when the rest of the pattern fails\<close>
  "match_ref [] s = None"
| "match_ref (n # ns) s =
     (case strip_prefix (n @ ''{'') s of
        Some t \<Rightarrow>
          (case lazy_to (CHR ''}'') t of
             Some rest \<Rightarrow> Some rest
           | None \<Rightarrow> match_ref ns s)
      | None \<Rightarrow> match_ref ns s)"

function sub_ref_commands :: "string \<Rightarrow> string" where
  \<comment> \<open>\<^verbatim>\<open>re.sub(r"\\(cite|ref|label|eqref|footnote|url|href)\{.*?\}", " ", text)\<close>\<close>
  "sub_ref_commands [] = []"
| "sub_ref_commands (c # cs) =
     (if c = backslash then
        (case match_ref ref_names cs of
           Some rest \<Rightarrow> space # sub_ref_commands rest
         | None \<Rightarrow> c # sub_ref_commands cs)
      else c # sub_ref_commands cs)"
  by pat_completeness auto
termination
proof -
  have lazy: "length r < length s" if "lazy_to x s = Some r" for x s r
    using that by (induction s) (auto split: if_splits)
  have literal: "length r \<le> length s" if "strip_prefix p s = Some r" for p s r
    using that by (induction p s rule: strip_prefix.induct) (auto split: if_splits)
  have shorter: "length r < length s" if "match_ref ns s = Some r" for ns s r
    using that
    by (induction ns) (auto split: option.splits dest!: literal lazy)
  show ?thesis
    by (relation "measure length") (auto dest: shorter)
qed

definition opt_star :: "string \<Rightarrow> string" where
  \<comment> \<open>\<^verbatim>\<open>\*?\<close>\<close>
  "opt_star s = (case s of c # t \<Rightarrow> if c = CHR ''*'' then t else s | [] \<Rightarrow> s)"

definition opt_group :: "char \<Rightarrow> char \<Rightarrow> string \<Rightarrow> string" where
  \<comment> \<open>\<^verbatim>\<open>(?:\[[^\]]*\])?\<close> and \<^verbatim>\<open>(?:\{[^}]*\})?\<close>: the opening character, everything up to the
      first closing character (line feeds too) and that character; nothing when the
      opening character is not there or no closing character follows\<close>
  "opt_group opn cls s =
     (case s of
        c # t \<Rightarrow>
          (if c = opn then
             (case dropWhile (\<lambda>d. d \<noteq> cls) t of
                [] \<Rightarrow> s
              | d # rest \<Rightarrow> rest)
           else s)
      | [] \<Rightarrow> s)"

definition command_rest :: "string \<Rightarrow> string" where
  \<comment> \<open>the text behind a match of \<^verbatim>\<open>[a-zA-Z]+\*?(?:\[[^\]]*\])?(?:\{[^}]*\})?\<close>, for a text
      that begins with a letter; every part is greedy\<close>
  "command_rest s =
     opt_group (CHR ''{'') (CHR ''}'')
       (opt_group (CHR ''['') (CHR '']'') (opt_star (dropWhile is_letter s)))"

function sub_commands :: "string \<Rightarrow> string" where
  \<comment> \<open>\<^verbatim>\<open>re.sub(r"\\[a-zA-Z]+\*?(?:\[[^\]]*\])?(?:\{[^}]*\})?", " ", text)\<close>\<close>
  "sub_commands [] = []"
| "sub_commands (c # cs) =
     (if c = backslash \<and> takeWhile is_letter cs \<noteq> []
      then space # sub_commands (command_rest cs)
      else c # sub_commands cs)"
  by pat_completeness auto
termination
proof -
  have star: "length (opt_star s) \<le> length s" for s
    by (auto simp: opt_star_def split: list.splits)
  have group: "length (opt_group a b s) \<le> length s" for a b s
  proof (cases s)
    case Nil
    then show ?thesis by (simp add: opt_group_def)
  next
    case (Cons c t)
    have "length (dropWhile (\<lambda>d. d \<noteq> b) t) \<le> length t"
      by (rule length_dropWhile_le)
    then show ?thesis using Cons
      by (auto simp: opt_group_def split: list.splits)
  qed
  have shorter: "length (command_rest s) \<le> length s" for s
  proof -
    have "length (command_rest s) \<le> length (opt_star (dropWhile is_letter s))"
      unfolding command_rest_def by (meson group order_trans)
    also have "\<dots> \<le> length (dropWhile is_letter s)"
      by (rule star)
    also have "\<dots> \<le> length s"
      by (rule length_dropWhile_le)
    finally show ?thesis .
  qed
  show ?thesis
    by (relation "measure length") (auto simp: le_imp_less_Suc shorter)
qed

definition replace_braces :: "string \<Rightarrow> string" where
  \<comment> \<open>\<^verbatim>\<open>text.replace("{", " ").replace("}", " ")\<close>\<close>
  "replace_braces s = map (\<lambda>c. if c = CHR ''{'' \<or> c = CHR ''}'' then space else c) s"

definition strip_markup :: "string \<Rightarrow> string" where
  \<comment> \<open>lines 20 to 28: what \<^verbatim>\<open>_strip_latex\<close> does behind its comment step\<close>
  "strip_markup text =
     replace_braces
       (sub_commands
          (sub_ref_commands
             (sub_display_math
                (sub_inline_math text))))"

definition strip_latex :: "string \<Rightarrow> string" where
  "strip_latex text = strip_markup (sub_comments True text)"


section \<open>Tokenizing: \<^verbatim>\<open>_clean_text\<close>\<close>

definition keep_letters :: "string \<Rightarrow> string" where
  \<comment> \<open>\<^verbatim>\<open>re.sub(r"[^A-Za-z\s]", " ", text)\<close>\<close>
  "keep_letters s = map (\<lambda>c. if is_letter c \<or> is_space c then c else space) s"

function collapse_ws :: "string \<Rightarrow> string" where
  \<comment> \<open>\<^verbatim>\<open>re.sub(r"\s+", " ", text)\<close>\<close>
  "collapse_ws [] = []"
| "collapse_ws (c # cs) =
     (if is_space c then space # collapse_ws (dropWhile is_space cs)
      else c # collapse_ws cs)"
  by pat_completeness auto
termination
  by (relation "measure length") (auto simp: le_imp_less_Suc length_dropWhile_le)

definition normalized :: "string \<Rightarrow> string" where
  \<comment> \<open>the value of \<^verbatim>\<open>text\<close> before the split (lines 34 and 35)\<close>
  "normalized text = lower (strip (collapse_ws (keep_letters text)))"

definition clean_text :: "string \<Rightarrow> int \<Rightarrow> string list" where
  "clean_text text min_len =
     filter (\<lambda>w. int (length w) \<ge> min_len) (split_on space (normalized text))"


section \<open>The run: \<^verbatim>\<open>main\<close>\<close>

text \<open>
  The run is modelled from line 64 on, with the parsed arguments as a record. What the run
  reads from outside is an environment: the two optional imports, each absent or giving
  what the script takes from it, the file system as a map from path strings to nodes, and
  the directory of the script. A file node holds the decoded text of the file, a directory
  node the names of its entries. The word-cloud renderer and the PDF extractor are outside
  the repository; the run is modelled up to the call that hands the filtered table to the
  renderer, and the printed report is left out.
\<close>

datatype node = File string | Dir "string list"

record args =
  args_input :: string
  args_output :: string
  args_min_len :: int
  args_max_words :: int
  args_print_top :: int
  args_debug_words :: string
  args_stopwords :: string
  args_extra_stopwords :: string

record env =
  wordcloud :: "string set option"
  pdfminer :: "(string \<Rightarrow> string) option"
  fs :: "string \<Rightarrow> node option"
  script_dir :: string

datatype failure =
    MissingWordcloud
  | InputNotFound
  | NoInputFiles
  | StopwordsNotFound
  | MissingPdfminer
  | Uncaught string

record report =
  saved_to :: string
  raw_counts :: "(string \<times> nat) list"
  counts :: "(string \<times> nat) list"

datatype result = Failed failure | Done report

fun exit_code :: "result \<Rightarrow> int" where
  \<comment> \<open>\<^verbatim>\<open>return 1\<close> on every reported failure, as an uncaught exception gives; \<^verbatim>\<open>return 0\<close>
      at the end\<close>
  "exit_code (Failed e) = 1"
| "exit_code (Done r) = 0"

fun png_written :: "result \<Rightarrow> string option" where
  \<comment> \<open>the path handed to \<^verbatim>\<open>wc.to_file\<close>, when the run gets there\<close>
  "png_written (Failed e) = None"
| "png_written (Done r) = Some (saved_to r)"

definition path_exists :: "env \<Rightarrow> string \<Rightarrow> bool" where
  \<comment> \<open>\<^verbatim>\<open>Path.exists()\<close>\<close>
  "path_exists e p \<longleftrightarrow> fs e p \<noteq> None"

definition child :: "string \<Rightarrow> string \<Rightarrow> string" where
  \<comment> \<open>the path of an entry of a directory\<close>
  "child d n = d @ ''/'' @ n"

definition has_suffix :: "string \<Rightarrow> string \<Rightarrow> bool" where
  \<comment> \<open>the name matches \<^verbatim>\<open>*ext\<close>\<close>
  "has_suffix ext name \<longleftrightarrow>
     length ext \<le> length name \<and> drop (length name - length ext) name = ext"

definition glob_ext :: "env \<Rightarrow> string \<Rightarrow> string \<Rightarrow> string list" where
  \<comment> \<open>\<^verbatim>\<open>Path.glob("*" + ext)\<close>: the matching entries of a directory; a path that is not a
      directory has no entries\<close>
  "glob_ext e d ext =
     (case fs e d of
        Some (Dir names) \<Rightarrow> map (child d) (filter (has_suffix ext) names)
      | _ \<Rightarrow> [])"

definition read_text :: "env \<Rightarrow> string \<Rightarrow> failure + string" where
  \<comment> \<open>\<^verbatim>\<open>Path.read_text()\<close>; reading what is not a file raises, and nothing in the script
      catches it\<close>
  "read_text e p = (case fs e p of Some (File s) \<Rightarrow> Inr s | _ \<Rightarrow> Inl (Uncaught p))"

definition is_linebreak :: "char \<Rightarrow> bool" where
  \<comment> \<open>the line boundaries of \<^verbatim>\<open>str.splitlines()\<close>\<close>
  "is_linebreak c \<longleftrightarrow>
     c \<in> set [CHR 0x0A, CHR 0x0B, CHR 0x0C, CHR 0x0D, CHR 0x1C, CHR 0x1D, CHR 0x1E, CHR 0x85]"

fun splitlines_from :: "string \<Rightarrow> string \<Rightarrow> string list" where
  \<comment> \<open>the first argument is the line read so far, reversed; carriage return and line feed
      together are one boundary, and a boundary at the very end opens no new line\<close>
  "splitlines_from cur [] = (if cur = [] then [] else [rev cur])"
| "splitlines_from cur [c] = (if is_linebreak c then [rev cur] else [rev (c # cur)])"
| "splitlines_from cur (c # d # cs) =
     (if c = CHR 0x0D \<and> d = CHR 0x0A then rev cur # splitlines_from [] cs
      else if is_linebreak c then rev cur # splitlines_from [] (d # cs)
      else splitlines_from (c # cur) (d # cs))"

definition splitlines :: "string \<Rightarrow> string list" where
  "splitlines s = splitlines_from [] s"

definition stop_entries :: "string list \<Rightarrow> string set" where
  \<comment> \<open>\<^verbatim>\<open>w.strip().lower() for w in ... if w.strip()\<close>\<close>
  "stop_entries ws = set (map (\<lambda>w. lower (strip w)) (filter (\<lambda>w. strip w \<noteq> []) ws))"

definition fallback_stop_path :: "env \<Rightarrow> string" where
  \<comment> \<open>\<^verbatim>\<open>Path(__file__).resolve().parent / ".." / "stopwords.txt"\<close>\<close>
  "fallback_stop_path e = child (child (script_dir e) ''..'') ''stopwords.txt''"

definition add_extra :: "args \<Rightarrow> string set \<Rightarrow> string set" where
  \<comment> \<open>lines 90 and 91\<close>
  "add_extra a sw =
     (if args_extra_stopwords a \<noteq> []
      then sw \<union> stop_entries (split_on (CHR '','') (args_extra_stopwords a))
      else sw)"

definition build_stopwords :: "env \<Rightarrow> args \<Rightarrow> string set \<Rightarrow> failure + string set" where
  \<comment> \<open>lines 83 to 91; the third argument is the renderer's \<^verbatim>\<open>STOPWORDS\<close>\<close>
  "build_stopwords e a builtin =
     (let stop_path = (if args_stopwords a \<noteq> [] then args_stopwords a
                       else fallback_stop_path e)
      in if path_exists e stop_path then
           (case read_text e stop_path of
              Inl err \<Rightarrow> Inl err
            | Inr s \<Rightarrow> Inr (add_extra a (builtin \<union> stop_entries (splitlines s))))
         else if args_stopwords a \<noteq> [] then Inl StopwordsNotFound
         else Inr (add_extra a builtin))"

fun tex_words :: "env \<Rightarrow> int \<Rightarrow> string list \<Rightarrow> failure + string list" where
  \<comment> \<open>the loop of lines 95 to 98\<close>
  "tex_words e n [] = Inr []"
| "tex_words e n (p # ps) =
     (case read_text e p of
        Inl err \<Rightarrow> Inl err
      | Inr text \<Rightarrow>
          (case tex_words e n ps of
             Inl err \<Rightarrow> Inl err
           | Inr ws \<Rightarrow> Inr (clean_text (strip_latex text) n @ ws)))"

definition pdf_words :: "(string \<Rightarrow> string) \<Rightarrow> int \<Rightarrow> string list \<Rightarrow> string list" where
  \<comment> \<open>the loop of lines 108 to 110\<close>
  "pdf_words extract_text n ps = concat (map (\<lambda>p. clean_text (extract_text p) n) ps)"

definition collect_words :: "env \<Rightarrow> args \<Rightarrow> string list \<Rightarrow> string list \<Rightarrow> failure + string list" where
  \<comment> \<open>lines 93 to 110\<close>
  "collect_words e a tex_files pdfs =
     (if tex_files \<noteq> [] then tex_words e (args_min_len a) tex_files
      else (case pdfminer e of
              None \<Rightarrow> Inl MissingPdfminer
            | Some extract_text \<Rightarrow> Inr (pdf_words extract_text (args_min_len a) pdfs)))"

fun bump :: "string \<Rightarrow> (string \<times> nat) list \<Rightarrow> (string \<times> nat) list" where
  \<comment> \<open>one more occurrence of a word; a new word goes to the end of the table\<close>
  "bump w [] = [(w, 1)]"
| "bump w ((k, n) # kvs) = (if k = w then (k, n + 1) # kvs else (k, n) # bump w kvs)"

definition Counter :: "string list \<Rightarrow> (string \<times> nat) list" where
  \<comment> \<open>\<^verbatim>\<open>collections.Counter(words)\<close>, as the table of its items in insertion order\<close>
  "Counter ws = fold bump ws []"

definition counter_get :: "(string \<times> nat) list \<Rightarrow> string \<Rightarrow> nat" where
  \<comment> \<open>\<^verbatim>\<open>table.get(word, 0)\<close>\<close>
  "counter_get t w = (case map_of t w of None \<Rightarrow> 0 | Some n \<Rightarrow> n)"

definition count_and_render :: "args \<Rightarrow> string set \<Rightarrow> string list \<Rightarrow> report" where
  \<comment> \<open>lines 112 to 125: both tables, the filtered one rendered to the output path\<close>
  "count_and_render a stopwords all_words =
     \<lparr> saved_to = args_output a,
       raw_counts = Counter all_words,
       counts = Counter (filter (\<lambda>w. w \<notin> stopwords) all_words) \<rparr>"

definition tex_files :: "env \<Rightarrow> args \<Rightarrow> string list" where
  \<comment> \<open>line 77: \<^verbatim>\<open>sorted(input_dir.glob("*.tex"))\<close>\<close>
  "tex_files e a = sort (glob_ext e (args_input a) ''.tex'')"

definition pdfs :: "env \<Rightarrow> args \<Rightarrow> string list" where
  \<comment> \<open>line 78: \<^verbatim>\<open>sorted(input_dir.glob("*.pdf"))\<close>\<close>
  "pdfs e a = sort (glob_ext e (args_input a) ''.pdf'')"

definition main :: "env \<Rightarrow> args \<Rightarrow> result" where
  "main e a =
     (case wordcloud e of
        None \<Rightarrow> Failed MissingWordcloud
      | Some builtin \<Rightarrow>
          if \<not> path_exists e (args_input a) then Failed InputNotFound
          else if tex_files e a = [] \<and> pdfs e a = [] then Failed NoInputFiles
          else
            (case build_stopwords e a builtin of
               Inl err \<Rightarrow> Failed err
             | Inr stopwords \<Rightarrow>
                 (case collect_words e a (tex_files e a) (pdfs e a) of
                    Inl err \<Rightarrow> Failed err
                  | Inr all_words \<Rightarrow> Done (count_and_render a stopwords all_words))))"


section \<open>Notions used in the statements\<close>

definition trimmed :: "string \<Rightarrow> string" where
  \<comment> \<open>the text of \<^verbatim>\<open>_clean_text\<close> behind \<^verbatim>\<open>strip()\<close> and before \<^verbatim>\<open>lower()\<close>\<close>
  "trimmed text = strip (collapse_ws (keep_letters text))"

definition words_ok :: "string list \<Rightarrow> bool" where
  \<comment> \<open>words of one or more small letters\<close>
  "words_ok ws \<longleftrightarrow> (\<forall>w\<in>set ws. w \<noteq> [] \<and> (\<forall>c\<in>set w. is_lower c))"

fun blank_comment_line :: "string \<Rightarrow> string" where
  \<comment> \<open>what the comment step does to one line: a line that begins with a percent sign
      becomes one space, any other line stays\<close>
  "blank_comment_line [] = []"
| "blank_comment_line (c # cs) = (if c = CHR ''%'' then [space] else c # cs)"

definition latex_example :: string where
  \<comment> \<open>the text \<^verbatim>\<open>\cite{foo} Hello World % a comment\<close>, a line feed, \<^verbatim>\<open>$x^2$ more text\<close>\<close>
  "latex_example =
     backslash # ''cite{foo} Hello World % a comment'' @ newline # ''$x^2$ more text''"

definition indented_comment :: string where
  \<comment> \<open>a line whose first character that is not a space is a percent sign\<close>
  "indented_comment = ''  % draft note''"

definition latex_example_raw :: string where
  \<comment> \<open>the same text with a backslash and an \<^verbatim>\<open>n\<close> in place of the line feed\<close>
  "latex_example_raw =
     backslash # ''cite{foo} Hello World % a comment'' @ backslash # ''n$x^2$ more text''"

definition example_fs :: "string \<Rightarrow> node option" where
  \<comment> \<open>a small file system: a folder of LaTeX sources with one PDF beside them, a folder
      of PDFs, a folder without input files, and a stopwords file\<close>
  "example_fs p =
     (if p = ''papers'' then Some (Dir [''b.tex'', ''a.tex'', ''notes.pdf'', ''README''])
      else if p = ''papers/a.tex'' then Some (File ''Graphs and trees'')
      else if p = ''papers/b.tex'' then Some (File (backslash # ''section{Intro} The graphs''))
      else if p = ''papers/notes.pdf'' then Some (File ''%PDF-1.4'')
      else if p = ''scans'' then Some (Dir [''z.pdf'', ''k.pdf''])
      else if p = ''scans/k.pdf'' then Some (File ''%PDF-1.4'')
      else if p = ''scans/z.pdf'' then Some (File ''%PDF-1.4'')
      else if p = ''empty'' then Some (Dir [''README''])
      else if p = ''list.txt'' then Some (File ''The\<newline> and \<newline>'')
      else None)"

definition example_env :: env where
  "example_env =
     \<lparr> wordcloud = Some {''the'', ''and''},
       pdfminer = Some (\<lambda>p. ''Text of '' @ p),
       fs = example_fs,
       script_dir = ''scripts'' \<rparr>"

definition example_args :: args where
  \<comment> \<open>the defaults of the argument parser\<close>
  "example_args =
     \<lparr> args_input = ''papers'',
       args_output = ''wordcloud.png'',
       args_min_len = 3,
       args_max_words = 90,
       args_print_top = 0,
       args_debug_words = [],
       args_stopwords = [],
       args_extra_stopwords = [] \<rparr>"

definition stop_args :: args where
  \<comment> \<open>the defaults, with an explicit stopwords file that exists\<close>
  "stop_args = example_args\<lparr>args_stopwords := ''list.txt''\<rparr>"

definition missing_stop_args :: args where
  \<comment> \<open>the defaults, with an explicit stopwords file that does not exist\<close>
  "missing_stop_args = example_args\<lparr>args_stopwords := ''nowhere.txt''\<rparr>"

definition other_stop_env :: env where
  \<comment> \<open>the example environment with other words in the stopwords file\<close>
  "other_stop_env =
     example_env\<lparr>fs := example_fs(''list.txt'' \<mapsto> File ''Trees\<newline>'')\<rparr>"


section \<open>Lemmas on the text functions\<close>

subsection \<open>Facts about the character classes\<close>

lemma is_space_space: "is_space space"
  by (simp add: is_space_def space_def)

lemma letter_not_space: "is_letter c \<Longrightarrow> \<not> is_space c"
  by (auto simp: is_letter_def is_upper_def is_lower_def is_space_def less_eq_char_def)

lemma lower_char_letter: "is_letter c \<Longrightarrow> is_lower (lower_char c)"
  by (auto simp: is_letter_def is_upper_def is_lower_def lower_char_def less_eq_char_def)

lemma lower_char_lower: "is_lower c \<Longrightarrow> lower_char c = c"
  by (auto simp: is_upper_def is_lower_def lower_char_def less_eq_char_def)

lemma lower_char_code:
  assumes "is_upper c \<or> (CHR 0xC0 \<le> c \<and> c \<le> CHR 0xDE \<and> c \<noteq> CHR 0xD7)"
  shows "(of_char (lower_char c) :: nat) = of_char c + 32"
proof -
  have "(of_char c :: nat) + 32 < 256"
    using assms by (auto simp: is_upper_def less_eq_char_def)
  moreover have "(of_char (lower_char c) :: nat) = (of_char c + 32) mod 256"
    using assms by (simp add: lower_char_def)
  ultimately show ?thesis by simp
qed

lemma lower_char_space: "lower_char c = space \<longleftrightarrow> c = space"
proof
  assume eq: "lower_char c = space"
  show "c = space"
  proof (cases "is_upper c \<or> (CHR 0xC0 \<le> c \<and> c \<le> CHR 0xDE \<and> c \<noteq> CHR 0xD7)")
    case True
    then have "(of_char (lower_char c) :: nat) = of_char c + 32"
      by (rule lower_char_code)
    moreover have "(of_char (lower_char c) :: nat) = 32"
      using eq by (simp add: space_def)
    ultimately have "(of_char c :: nat) = 0" by simp
    then show ?thesis
      using True by (auto simp: is_upper_def less_eq_char_def)
  next
    case False
    then have "lower_char c = c"
      unfolding lower_char_def by (rule if_not_P)
    then show ?thesis using eq by simp
  qed
next
  assume "c = space"
  then show "lower_char c = space"
    by (simp add: lower_char_def is_upper_def less_eq_char_def space_def)
qed

subsection \<open>Splitting and joining\<close>

lemma split_on_not_Nil: "split_on sep t \<noteq> []"
  by (induction t) (auto split: list.splits)

lemma join_Cons_Cons: "join sep ((c # w) # ws) = c # join sep (w # ws)"
  by (cases ws) simp_all

lemma join_split_on: "join [sep] (split_on sep t) = t"
proof (induction t)
  case Nil
  show ?case by simp
next
  case (Cons c cs)
  obtain w ws where sp: "split_on sep cs = w # ws"
    using split_on_not_Nil [of sep cs] by (cases "split_on sep cs") auto
  show ?case
  proof (cases "c = sep")
    case True
    then show ?thesis using Cons sp by simp
  next
    case False
    then show ?thesis using Cons sp by (simp add: join_Cons_Cons)
  qed
qed

lemma split_on_chars: "w \<in> set (split_on sep t) \<Longrightarrow> set w \<subseteq> set t - {sep}"
proof (induction t arbitrary: w)
  case Nil
  then show ?case by simp
next
  case (Cons c cs)
  obtain v vs where sp: "split_on sep cs = v # vs"
    using split_on_not_Nil [of sep cs] by (cases "split_on sep cs") auto
  show ?case
  proof (cases "c = sep")
    case True
    then show ?thesis using Cons sp by auto
  next
    case False
    then have "w = c # v \<or> w \<in> set vs" using Cons.prems sp by simp
    then show ?thesis
    proof
      assume "w = c # v"
      moreover have "set v \<subseteq> set cs - {sep}" using Cons.IH [of v] sp by simp
      ultimately show ?thesis using False by auto
    next
      assume "w \<in> set vs"
      then have "set w \<subseteq> set cs - {sep}" using Cons.IH [of w] sp by simp
      then show ?thesis by auto
    qed
  qed
qed

lemma split_on_map:
  assumes "\<And>c. f c = sep \<longleftrightarrow> c = sep"
  shows "split_on sep (map f t) = map (map f) (split_on sep t)"
proof (induction t)
  case Nil
  show ?case by simp
next
  case (Cons c cs)
  obtain v vs where sp: "split_on sep cs = v # vs"
    using split_on_not_Nil [of sep cs] by (cases "split_on sep cs") auto
  show ?case using Cons sp assms by simp
qed

lemma split_on_word_append:
  "sep \<notin> set w \<Longrightarrow> split_on sep (w @ sep # r) = w # split_on sep r"
  by (induction w) auto

lemma split_on_word: "sep \<notin> set w \<Longrightarrow> split_on sep w = [w]"
  by (induction w) auto

lemma split_on_join:
  "ws \<noteq> [] \<Longrightarrow> \<forall>w\<in>set ws. sep \<notin> set w \<Longrightarrow> split_on sep (join [sep] ws) = ws"
proof (induction ws)
  case Nil
  then show ?case by simp
next
  case (Cons w ws)
  show ?case
  proof (cases ws)
    case Nil
    then show ?thesis using Cons.prems by (simp add: split_on_word)
  next
    case (Cons v vs)
    then have "split_on sep (join [sep] ws) = ws"
      using Cons.IH Cons.prems by simp
    then show ?thesis using Cons Cons.prems
      by (simp add: split_on_word_append)
  qed
qed

lemma split_on_empty_field:
  "([] \<in> set (split_on sep t) \<longrightarrow>
      t = [] \<or> (\<exists>r. t = sep # r) \<or> (\<exists>r. t = r @ [sep]) \<or> (\<exists>a b. t = a @ sep # sep # b))
   \<and> ([] \<in> set (tl (split_on sep t)) \<longrightarrow>
      (\<exists>r. t = r @ [sep]) \<or> (\<exists>a b. t = a @ sep # sep # b))"
proof (induction t)
  case Nil
  show ?case by simp
next
  case (Cons c cs)
  obtain v vs where sp: "split_on sep cs = v # vs"
    using split_on_not_Nil [of sep cs] by (cases "split_on sep cs") auto
  show ?case
  proof (cases "c = sep")
    case True
    have "(\<exists>r. c # cs = r @ [sep]) \<or> (\<exists>a b. c # cs = a @ sep # sep # b)"
      if "[] \<in> set (split_on sep cs)"
    proof -
      from that Cons.IH
      consider "cs = []" | r where "cs = sep # r" | r where "cs = r @ [sep]"
        | a b where "cs = a @ sep # sep # b"
        by blast
      then show ?thesis
      proof cases
        case 1
        then have "c # cs = [] @ [sep]" using True by simp
        then show ?thesis by blast
      next
        case 2
        then have "c # cs = [] @ sep # sep # r" using True by simp
        then show ?thesis by blast
      next
        case 3
        then have "c # cs = (c # r) @ [sep]" by simp
        then show ?thesis by blast
      next
        case 4
        then have "c # cs = (c # a) @ sep # sep # b" by simp
        then show ?thesis by blast
      qed
    qed
    then show ?thesis using True sp by auto
  next
    case False
    have "(\<exists>r. c # cs = r @ [sep]) \<or> (\<exists>a b. c # cs = a @ sep # sep # b)"
      if "[] \<in> set vs"
    proof -
      from that Cons.IH sp
      consider r where "cs = r @ [sep]" | a b where "cs = a @ sep # sep # b"
        by auto
      then show ?thesis
      proof cases
        case 1
        then have "c # cs = (c # r) @ [sep]" by simp
        then show ?thesis by blast
      next
        case 2
        then have "c # cs = (c # a) @ sep # sep # b" by simp
        then show ?thesis by blast
      qed
    qed
    then show ?thesis using False sp by auto
  qed
qed

subsection \<open>The normalized text\<close>

lemma keep_letters_chars: "c \<in> set (keep_letters s) \<Longrightarrow> is_letter c \<or> is_space c"
  by (auto simp: keep_letters_def is_space_space)

lemma collapse_ws_chars:
  "c \<in> set (collapse_ws s) \<Longrightarrow> c = space \<or> (c \<in> set s \<and> \<not> is_space c)"
proof (induction s rule: collapse_ws.induct)
  case 1
  then show ?case by simp
next
  case (2 d ds)
  show ?case
  proof (cases "is_space d")
    case True
    then have "c = space \<or> c \<in> set (collapse_ws (dropWhile is_space ds))"
      using "2.prems" by simp
    then show ?thesis
      using "2.IH"(1) [OF True] by (auto dest: set_dropWhileD)
  next
    case False
    then show ?thesis using "2.prems" "2.IH"(2) by auto
  qed
qed

lemma collapse_ws_no_lead: "collapse_ws (dropWhile is_space s) \<noteq> space # r"
proof (cases "dropWhile is_space s")
  case Nil
  show ?thesis unfolding Nil by simp
next
  case (Cons d ds)
  then have "\<not> is_space d" by (simp add: dropWhile_eq_Cons_conv)
  then show ?thesis using Cons is_space_space by auto
qed

lemma collapse_ws_no_double: "collapse_ws s \<noteq> a @ space # space # b"
proof (induction s arbitrary: a rule: collapse_ws.induct)
  case 1
  show ?case by simp
next
  case (2 d ds)
  show ?case
  proof (cases "is_space d")
    case True
    show ?thesis
    proof (cases a)
      case Nil
      then show ?thesis using True collapse_ws_no_lead [of ds b] by simp
    next
      case (Cons x a')
      then show ?thesis using True "2.IH"(1) [OF True, of a'] by simp
    qed
  next
    case False
    show ?thesis
    proof (cases a)
      case Nil
      then show ?thesis using False is_space_space by auto
    next
      case (Cons x a')
      then show ?thesis using False "2.IH"(2) [OF False, of a'] by simp
    qed
  qed
qed

lemma strip_suffix:
  "dropWhile is_space s = strip s @ rev (takeWhile is_space (rev (dropWhile is_space s)))"
proof -
  let ?y = "dropWhile is_space s"
  have "strip s @ rev (takeWhile is_space (rev ?y))
      = rev (takeWhile is_space (rev ?y) @ dropWhile is_space (rev ?y))"
    by (simp only: strip_def rev_append)
  also have "\<dots> = rev (rev ?y)"
    by (simp only: takeWhile_dropWhile_id)
  finally show ?thesis by simp
qed

lemma strip_decomp: "\<exists>a b. s = a @ strip s @ b"
proof -
  have "s = takeWhile is_space s @ dropWhile is_space s" by simp
  then have "s = takeWhile is_space s @ strip s
      @ rev (takeWhile is_space (rev (dropWhile is_space s)))"
    using strip_suffix [of s] by simp
  then show ?thesis by blast
qed

lemma strip_no_trail: "strip s = r @ [c] \<Longrightarrow> \<not> is_space c"
proof -
  assume "strip s = r @ [c]"
  then have "rev (strip s) = c # rev r" by simp
  then have "dropWhile is_space (rev (dropWhile is_space s)) = c # rev r"
    by (simp add: strip_def)
  then show ?thesis by (simp add: dropWhile_eq_Cons_conv)
qed

lemma strip_no_lead: "strip s = c # r \<Longrightarrow> \<not> is_space c"
proof -
  assume "strip s = c # r"
  then have "dropWhile is_space s
      = c # (r @ rev (takeWhile is_space (rev (dropWhile is_space s))))"
    using strip_suffix [of s] by simp
  then show ?thesis by (simp add: dropWhile_eq_Cons_conv)
qed

lemma normalize_trimmed: "normalized text = map lower_char (trimmed text)"
  by (simp add: normalized_def trimmed_def lower_def)

lemma trimmed_chars: "c \<in> set (trimmed text) \<Longrightarrow> is_letter c \<or> c = space"
proof -
  assume "c \<in> set (trimmed text)"
  moreover obtain a b where
    "collapse_ws (keep_letters text) = a @ trimmed text @ b"
    using strip_decomp [of "collapse_ws (keep_letters text)"] by (auto simp: trimmed_def)
  ultimately have "c \<in> set (collapse_ws (keep_letters text))" by simp
  then have "c = space \<or> (c \<in> set (keep_letters text) \<and> \<not> is_space c)"
    by (rule collapse_ws_chars)
  then show ?thesis by (auto dest: keep_letters_chars)
qed

lemma trimmed_fields: "trimmed text \<noteq> [] \<Longrightarrow> [] \<notin> set (split_on space (trimmed text))"
proof
  let ?t = "trimmed text"
  assume ne: "?t \<noteq> []" and "[] \<in> set (split_on space ?t)"
  then consider r where "?t = space # r" | r where "?t = r @ [space]"
    | a b where "?t = a @ space # space # b"
    using split_on_empty_field [of space ?t] by blast
  then show False
  proof cases
    case 1
    then show ?thesis using strip_no_lead is_space_space by (auto simp: trimmed_def)
  next
    case 2
    then show ?thesis using strip_no_trail is_space_space by (auto simp: trimmed_def)
  next
    case 3
    obtain p q where "collapse_ws (keep_letters text) = p @ ?t @ q"
      using strip_decomp [of "collapse_ws (keep_letters text)"] by (auto simp: trimmed_def)
    then have "collapse_ws (keep_letters text) = (p @ a) @ space # space # (b @ q)"
      using 3 by simp
    then show ?thesis using collapse_ws_no_double by blast
  qed
qed

lemma normalize_split:
  "split_on space (normalized text) = map (map lower_char) (split_on space (trimmed text))"
  unfolding normalize_trimmed by (rule split_on_map) (rule lower_char_space)

text \<open>The fields of a normalized text: words of small letters, none of them empty unless
  the text has no letter at all.\<close>

lemma normalize_fields_lower:
  assumes "w \<in> set (split_on space (normalized text))"
  shows "\<forall>c\<in>set w. is_lower c"
proof -
  from assms obtain v where v: "v \<in> set (split_on space (trimmed text))" and w: "w = map lower_char v"
    by (auto simp: normalize_split)
  have "set v \<subseteq> set (trimmed text) - {space}"
    using v by (rule split_on_chars)
  then have "\<forall>c\<in>set v. is_letter c"
    using trimmed_chars by blast
  then show ?thesis using w by (auto intro: lower_char_letter)
qed

lemma normalize_fields_nonempty:
  assumes "normalized text \<noteq> []"
  shows "[] \<notin> set (split_on space (normalized text))"
proof -
  have "trimmed text \<noteq> []" using assms by (simp add: normalize_trimmed)
  then have "[] \<notin> set (split_on space (trimmed text))" by (rule trimmed_fields)
  then show ?thesis by (auto simp: normalize_split)
qed

subsection \<open>Texts without a letter\<close>

lemma dropWhile_all_iff: "(\<forall>c\<in>set (dropWhile P s). P c) \<longleftrightarrow> dropWhile P s = []"
proof
  assume all: "\<forall>c\<in>set (dropWhile P s). P c"
  show "dropWhile P s = []"
  proof (cases "dropWhile P s")
    case Nil
    then show ?thesis .
  next
    case (Cons d ds)
    then have "\<not> P d" by (simp add: dropWhile_eq_Cons_conv)
    moreover have "d \<in> set (dropWhile P s)" by (simp only: Cons list.set insertI1)
    ultimately show ?thesis using all by blast
  qed
next
  assume e: "dropWhile P s = []"
  show "\<forall>c\<in>set (dropWhile P s). P c"
    by (simp only: e list.set ball_empty)
qed

lemma strip_Nil_iff: "strip s = [] \<longleftrightarrow> (\<forall>c\<in>set s. is_space c)"
proof -
  have "strip s = [] \<longleftrightarrow> dropWhile is_space (rev (dropWhile is_space s)) = []"
    by (simp only: strip_def rev_is_Nil_conv)
  also have "\<dots> \<longleftrightarrow> (\<forall>c\<in>set (dropWhile is_space s). is_space c)"
    by (simp only: dropWhile_eq_Nil_conv set_rev)
  also have "\<dots> \<longleftrightarrow> dropWhile is_space s = []"
    by (rule dropWhile_all_iff)
  also have "\<dots> \<longleftrightarrow> (\<forall>c\<in>set s. is_space c)"
    by (simp only: dropWhile_eq_Nil_conv)
  finally show ?thesis .
qed

lemma collapse_ws_keeps: "c \<in> set s \<Longrightarrow> \<not> is_space c \<Longrightarrow> c \<in> set (collapse_ws s)"
proof (induction s rule: collapse_ws.induct)
  case 1
  then show ?case by simp
next
  case (2 d ds)
  show ?case
  proof (cases "is_space d")
    case True
    then have "c \<in> set ds" using "2.prems" by auto
    then have "c \<in> set (takeWhile is_space ds) \<or> c \<in> set (dropWhile is_space ds)"
      using takeWhile_dropWhile_id [of is_space ds] by (metis Un_iff set_append)
    moreover have "c \<notin> set (takeWhile is_space ds)"
      using "2.prems"(2) by (auto dest: set_takeWhileD)
    ultimately have "c \<in> set (collapse_ws (dropWhile is_space ds))"
      using "2.IH"(1) [OF True] "2.prems"(2) by blast
    then show ?thesis using True by simp
  next
    case False
    then show ?thesis using "2.prems" "2.IH"(2) by auto
  qed
qed

lemma collapse_ws_all_space:
  "(\<forall>c\<in>set (collapse_ws s). is_space c) \<longleftrightarrow> (\<forall>c\<in>set s. is_space c)"
  using collapse_ws_keeps collapse_ws_chars is_space_space by blast

lemma keep_letters_all_space:
  "(\<forall>c\<in>set (keep_letters s). is_space c) \<longleftrightarrow> (\<forall>c\<in>set s. \<not> is_letter c)"
  by (auto simp: keep_letters_def is_space_space dest: letter_not_space)

lemma normalized_Nil_iff: "normalized text = [] \<longleftrightarrow> (\<forall>c\<in>set text. \<not> is_letter c)"
proof -
  have "normalized text = [] \<longleftrightarrow> strip (collapse_ws (keep_letters text)) = []"
    by (simp add: normalized_def lower_def)
  also have "\<dots> \<longleftrightarrow> (\<forall>c\<in>set (collapse_ws (keep_letters text)). is_space c)"
    by (rule strip_Nil_iff)
  also have "\<dots> \<longleftrightarrow> (\<forall>c\<in>set (keep_letters text). is_space c)"
    by (rule collapse_ws_all_space)
  also have "\<dots> \<longleftrightarrow> (\<forall>c\<in>set text. \<not> is_letter c)"
    by (rule keep_letters_all_space)
  finally show ?thesis .
qed

subsection \<open>Joined words are already normalized\<close>

lemma lower_not_space: "is_lower c \<Longrightarrow> \<not> is_space c"
  by (rule letter_not_space) (simp add: is_letter_def)

lemma join_chars: "c \<in> set (join sep ws) \<Longrightarrow> c \<in> set sep \<or> (\<exists>w\<in>set ws. c \<in> set w)"
  by (induction sep ws rule: join.induct) auto

lemma hd_join: "w \<noteq> [] \<Longrightarrow> hd (join sep (w # ws)) = hd w"
  by (cases ws) simp_all

lemma join_not_Nil: "w \<noteq> [] \<Longrightarrow> join sep (w # ws) \<noteq> []"
  by (cases ws) simp_all

lemma last_join:
  "ws \<noteq> [] \<Longrightarrow> \<forall>w\<in>set ws. w \<noteq> [] \<Longrightarrow> last (join sep ws) = last (last ws)"
proof (induction sep ws rule: join.induct)
  case (1 sep)
  then show ?case by simp
next
  case (2 sep w)
  then show ?case by simp
next
  case (3 sep w v ws)
  then have "join sep (v # ws) \<noteq> []" by (simp add: join_not_Nil)
  then show ?case using 3 by simp
qed

lemma collapse_ws_word:
  "\<forall>c\<in>set w. \<not> is_space c \<Longrightarrow> collapse_ws (w @ y) = w @ collapse_ws y"
  by (induction w) auto

lemma collapse_ws_join:
  "words_ok ws \<Longrightarrow> collapse_ws (join [space] ws) = join [space] ws"
proof (induction "[space]" ws rule: join.induct)
  case 1
  show ?case by simp
next
  case (2 w)
  then have "\<forall>c\<in>set w. \<not> is_space c"
    by (auto simp: words_ok_def dest: lower_not_space)
  then show ?case using collapse_ws_word [of w "[]"] by simp
next
  case (3 w v ws)
  then have w: "\<forall>c\<in>set w. \<not> is_space c" and v: "v \<noteq> []" "\<not> is_space (hd v)"
    and ok: "words_ok (v # ws)"
    by (auto simp: words_ok_def dest: lower_not_space)
  have j: "join [space] (v # ws) \<noteq> []" "\<not> is_space (hd (join [space] (v # ws)))"
    using v by (simp_all add: join_not_Nil hd_join)
  then have "dropWhile is_space (join [space] (v # ws)) = join [space] (v # ws)"
    by (cases "join [space] (v # ws)") simp_all
  then have "collapse_ws (space # join [space] (v # ws)) = space # join [space] (v # ws)"
    using "3.hyps" [OF ok] by (simp add: is_space_space)
  then show ?case using collapse_ws_word [OF w, of "space # join [space] (v # ws)"] by simp
qed

lemma strip_id:
  assumes "s = [] \<or> (\<not> is_space (hd s) \<and> \<not> is_space (last s))"
  shows "strip s = s"
proof (cases s rule: rev_cases)
  case Nil
  then show ?thesis by (simp add: strip_def)
next
  case (snoc r c)
  have "dropWhile is_space s = s" using assms by (cases s) auto
  moreover have "\<not> is_space c" using assms snoc by auto
  ultimately show ?thesis using snoc by (simp add: strip_def)
qed

lemma strip_join: "words_ok ws \<Longrightarrow> strip (join [space] ws) = join [space] ws"
proof (cases ws)
  case Nil
  then show ?thesis by (simp add: strip_def)
next
  case (Cons w vs)
  assume ok: "words_ok ws"
  then have "w \<noteq> []" "is_lower (hd w)" using Cons by (auto simp: words_ok_def)
  then have first: "\<not> is_space (hd (join [space] ws))"
    using Cons by (simp add: hd_join lower_not_space)
  have "last ws \<in> set ws" using Cons by simp
  then have "last ws \<noteq> []" "\<forall>c\<in>set (last ws). is_lower c"
    using ok unfolding words_ok_def by blast+
  then have "is_lower (last (last ws))" by simp
  moreover have "last (join [space] ws) = last (last ws)"
    using ok Cons by (intro last_join) (auto simp: words_ok_def)
  ultimately have "\<not> is_space (last (join [space] ws))"
    by (simp add: lower_not_space)
  then show ?thesis using first by (simp add: strip_id)
qed

lemma normalize_join:
  assumes "words_ok ws"
  shows "normalized (join [space] ws) = join [space] ws"
proof -
  have chars: "\<forall>c\<in>set (join [space] ws). is_lower c \<or> c = space"
    using assms by (auto simp: words_ok_def dest!: join_chars)
  then have "keep_letters (join [space] ws) = join [space] ws"
    unfolding keep_letters_def by (intro map_idI) (auto simp: is_letter_def is_space_space)
  moreover have "lower (join [space] ws) = join [space] ws"
    unfolding lower_def using chars
    by (intro map_idI) (auto simp: lower_char_lower lower_char_space)
  ultimately show ?thesis
    using assms by (simp add: normalized_def collapse_ws_join strip_join)
qed

lemma normalize_Nil: "normalized [] = []"
  by (simp add: normalized_def keep_letters_def strip_def lower_def)

lemma normalize_words_ok:
  "normalized text \<noteq> [] \<Longrightarrow> words_ok (split_on space (normalized text))"
  unfolding words_ok_def
  using normalize_fields_nonempty normalize_fields_lower by metis

lemma takeWhile_no_sep: "sep \<notin> set (takeWhile (\<lambda>d. d \<noteq> sep) cs)"
  by (auto dest: set_takeWhileD)

lemma split_on_first_line:
  "split_on sep cs =
     (case dropWhile (\<lambda>d. d \<noteq> sep) cs of
        [] \<Rightarrow> [cs]
      | d # r \<Rightarrow> takeWhile (\<lambda>d. d \<noteq> sep) cs # split_on sep r)"
proof (cases "dropWhile (\<lambda>d. d \<noteq> sep) cs")
  case Nil
  then have "sep \<notin> set cs" by (auto simp: dropWhile_eq_Nil_conv)
  then have "split_on sep cs = [cs]" by (rule split_on_word)
  then show ?thesis by (simp only: Nil list.case)
next
  case (Cons d r)
  then have d: "d = sep" by (simp add: dropWhile_eq_Cons_conv)
  have "cs = takeWhile (\<lambda>d. d \<noteq> sep) cs @ sep # r"
    using Cons d takeWhile_dropWhile_id [of "\<lambda>d. d \<noteq> sep" cs] by simp
  then have "split_on sep cs = split_on sep (takeWhile (\<lambda>d. d \<noteq> sep) cs @ sep # r)"
    by simp
  also have "\<dots> = takeWhile (\<lambda>d. d \<noteq> sep) cs # split_on sep r"
    by (rule split_on_word_append) (rule takeWhile_no_sep)
  finally show ?thesis using Cons by simp
qed

lemma sub_comments_lines:
  "split_on newline (sub_comments bol s) =
     (case split_on newline s of
        l # ls \<Rightarrow> (if bol then blank_comment_line l else l) # map blank_comment_line ls
      | [] \<Rightarrow> [])"
proof (induction bol s rule: sub_comments.induct)
  case (1 bol)
  show ?case by simp
next
  case (2 bol c cs)
  let ?rest = "dropWhile (\<lambda>d. d \<noteq> newline) cs"
  have sp_nl: "space \<noteq> newline" by (simp add: space_def newline_def)
  have pc_nl: "CHR ''%'' \<noteq> newline" by (simp add: newline_def)
  show ?case
  proof (cases "bol \<and> c = CHR ''%''")
    case True
    note IH = "2.IH"(1) [OF True]
    show ?thesis
    proof (cases ?rest)
      case Nil
      have "split_on newline cs = [cs]"
        by (simp only: split_on_first_line [of newline cs] Nil list.case)
      moreover have "sub_comments False ?rest = []"
        by (simp only: Nil sub_comments.simps)
      ultimately show ?thesis using True sp_nl pc_nl by simp
    next
      case (Cons d r)
      then have "d = newline" by (simp add: dropWhile_eq_Cons_conv)
      have cs: "split_on newline cs = takeWhile (\<lambda>d. d \<noteq> newline) cs # split_on newline r"
        by (simp only: split_on_first_line [of newline cs] Cons list.case)
      obtain l ls where r: "split_on newline r = l # ls"
        using split_on_not_Nil [of newline r] by (cases "split_on newline r") auto
      show ?thesis using True Cons \<open>d = newline\<close> IH cs r sp_nl pc_nl by simp
    qed
  next
    case False
    note IH = "2.IH"(2) [OF False]
    obtain l ls where cs: "split_on newline cs = l # ls"
      using split_on_not_Nil [of newline cs] by (cases "split_on newline cs") auto
    show ?thesis
    proof (cases "c = newline")
      case True
      then show ?thesis using False IH cs by (simp add: pc_nl)
    next
      case nl: False
      then show ?thesis using False IH cs by auto
    qed
  qed
qed


lemma sub_comments_by_line:
  "sub_comments True s = join [newline] (map blank_comment_line (split_on newline s))"
proof -
  obtain l ls where sp: "split_on newline s = l # ls"
    using split_on_not_Nil [of newline s] by (cases "split_on newline s") auto
  have "split_on newline (sub_comments True s) = map blank_comment_line (split_on newline s)"
    using sub_comments_lines [of True s] sp by simp
  then have "join [newline] (split_on newline (sub_comments True s))
      = join [newline] (map blank_comment_line (split_on newline s))"
    by simp
  then show ?thesis
    by (simp only: join_split_on)
qed

section \<open>Lemmas on the run\<close>

subsection \<open>Frequency tables\<close>

lemma map_of_bump: "map_of (bump w t) = (map_of t)(w \<mapsto> counter_get t w + 1)"
  by (induction w t rule: bump.induct) (auto simp: counter_get_def)

lemma counter_get_bump:
  "counter_get (bump x t) w = (if w = x then counter_get t w + 1 else counter_get t w)"
  by (simp add: counter_get_def map_of_bump)

lemma map_of_fold_bump:
  "map_of (fold bump ws t) w =
     (if w \<in> set ws then Some (counter_get t w + count_list ws w) else map_of t w)"
proof (induction ws arbitrary: t)
  case Nil
  show ?case by simp
next
  case (Cons x xs)
  show ?case
    by (simp add: Cons.IH counter_get_bump map_of_bump)
qed

lemma map_of_Counter:
  "map_of (Counter ws) w = (if w \<in> set ws then Some (count_list ws w) else None)"
  by (simp add: Counter_def map_of_fold_bump counter_get_def)

lemma counter_get_Counter: "counter_get (Counter ws) w = count_list ws w"
  by (simp add: counter_get_def map_of_Counter count_list_0_iff)

lemma count_list_filter_keep: "P w \<Longrightarrow> count_list (filter P ws) w = count_list ws w"
  by (induction ws) auto

lemma count_list_filter_drop: "\<not> P w \<Longrightarrow> count_list (filter P ws) w = 0"
  by (simp add: count_list_0_iff)

subsection \<open>Globbing, reading and failures\<close>

lemma glob_ext_file: "fs e d = Some (File s) \<Longrightarrow> glob_ext e d ext = []"
  by (simp add: glob_ext_def)

lemma glob_ext_dir:
  "fs e d = Some (Dir names) \<Longrightarrow> glob_ext e d ext = map (child d) (filter (has_suffix ext) names)"
  by (simp add: glob_ext_def)

lemma tex_words_failure: "tex_words e n ps = Inl err \<Longrightarrow> \<exists>p. err = Uncaught p"
  by (induction ps) (auto simp: read_text_def split: sum.splits option.splits node.splits)

lemma collect_words_failure:
  "collect_words e a ts ps = Inl err \<Longrightarrow> err = MissingPdfminer \<or> (\<exists>p. err = Uncaught p)"
  by (auto simp: collect_words_def split: if_splits option.splits dest: tex_words_failure)

lemma tex_words_cong:
  "(\<And>p. p \<in> set ps \<Longrightarrow> fs e1 p = fs e2 p) \<Longrightarrow> tex_words e1 n ps = tex_words e2 n ps"
proof (induction ps)
  case Nil
  show ?case by simp
next
  case (Cons p ps)
  have "read_text e1 p = read_text e2 p"
    using Cons.prems [of p] by (simp add: read_text_def)
  moreover have "tex_words e1 n ps = tex_words e2 n ps"
    using Cons.IH Cons.prems by simp
  ultimately show ?case by (simp split: sum.splits)
qed

lemma main_Done:
  "main e a = Done r \<Longrightarrow>
     \<exists>stopwords ws. collect_words e a (tex_files e a) (pdfs e a) = Inr ws
       \<and> r = count_and_render a stopwords ws"
  by (auto simp: main_def split: option.splits if_splits sum.splits)

lemma main_reaches_stopwords:
  assumes "wordcloud e = Some builtin" and "path_exists e (args_input a)"
    and "\<not> (tex_files e a = [] \<and> pdfs e a = [])"
  shows "main e a =
    (case build_stopwords e a builtin of
       Inl err \<Rightarrow> Failed err
     | Inr stopwords \<Rightarrow>
         (case collect_words e a (tex_files e a) (pdfs e a) of
            Inl err \<Rightarrow> Failed err
          | Inr ws \<Rightarrow> Done (count_and_render a stopwords ws)))"
  using assms by (auto simp: main_def)

lemma main_Done_inputs:
  "main e a = Done r \<Longrightarrow>
     path_exists e (args_input a) \<and> \<not> (tex_files e a = [] \<and> pdfs e a = [])"
  by (auto simp: main_def split: option.splits if_splits sum.splits)


section \<open>The claims on the text functions\<close>

text \<open>
  Claim C1, as the code has it. On the text \<^verbatim>\<open>\cite{foo} Hello World % a comment\<close>,
  line feed, \<^verbatim>\<open>$x^2$ more text\<close>, the extraction removes the citation and the formula and
  keeps the comment, which does not begin its line: the result is two spaces,
  \<^verbatim>\<open>Hello World % a comment\<close>, the line feed, two spaces and \<^verbatim>\<open>more text\<close>. Tokenizing
  that with minimum length 3 gives hello, world, comment, more, text.
\<close>

theorem latex_example_tokens:
  "strip_latex latex_example = ''  Hello World % a comment\<newline>  more text''
   \<and> clean_text (strip_latex latex_example) 3
       = [''hello'', ''world'', ''comment'', ''more'', ''text'']"
  by code_simp

text \<open>
  The token sequence hello, world, more, text is not what the code gives on that text:
  the word of the comment is among the tokens. It is so too when the two characters
  \<^verbatim>\<open>\n\<close> of the written text are taken as they stand.
\<close>

theorem latex_example_counterexample:
  "clean_text (strip_latex latex_example) 3 \<noteq> [''hello'', ''world'', ''more'', ''text'']
   \<and> ''comment'' \<in> set (clean_text (strip_latex latex_example) 3)
   \<and> clean_text (strip_latex latex_example_raw) 3
       = [''hello'', ''world'', ''comment'', ''more'', ''text'']"
  by code_simp

text \<open>
  Claim C2. The extraction is to remove every line whose first character that is not a
  space is a percent sign. The code does so for a line that begins with the percent sign;
  on the line \<^verbatim>\<open>  % draft note\<close>, where two spaces come first, the comment step finds
  nothing, the line comes out of the extraction as it went in, and its words become
  tokens.
\<close>

theorem indented_comment_kept:
  "sub_comments True indented_comment = indented_comment
   \<and> strip_latex indented_comment = indented_comment
   \<and> clean_text (strip_latex indented_comment) 3 = [''draft'', ''note'']
   \<and> strip_latex ''% draft note'' = '' ''
   \<and> clean_text (strip_latex ''% draft note'') 3 = []"
  by code_simp

text \<open>
  Claim C3. For every text and every minimum length, tokenizing the text, joining the
  tokens with single spaces and tokenizing again with the same minimum length gives the
  tokens of the first pass.
\<close>

theorem clean_text_idempotent:
  "clean_text (join [space] (clean_text text min_len)) min_len = clean_text text min_len"
proof (cases "normalized text = []")
  case True
  then have "clean_text text min_len = (if min_len \<le> 0 then [[]] else [])"
    by (simp add: clean_text_def)
  then show ?thesis by (simp add: clean_text_def normalize_Nil)
next
  case False
  let ?ws = "split_on space (normalized text)"
  let ?toks = "clean_text text min_len"
  have toks: "?toks = filter (\<lambda>w. min_len \<le> int (length w)) ?ws"
    by (simp add: clean_text_def)
  have "words_ok ?ws" using False by (rule normalize_words_ok)
  then have ok: "words_ok ?toks" by (auto simp: toks words_ok_def)
  show ?thesis
  proof (cases "?toks = []")
    case True
    obtain w where "w \<in> set ?ws"
      using split_on_not_Nil [of space "normalized text"] by (cases ?ws) auto
    then have "\<not> min_len \<le> int (length w)"
      using True by (auto simp: toks filter_empty_conv)
    then have "\<not> min_len \<le> 0" by simp
    then show ?thesis using True by (simp add: clean_text_def normalize_Nil)
  next
    case nonempty: False
    have "\<forall>w\<in>set ?toks. space \<notin> set w"
      using ok is_space_space by (auto simp: words_ok_def dest: lower_not_space)
    then have "split_on space (join [space] ?toks) = ?toks"
      using nonempty by (simp add: split_on_join)
    then have "clean_text (join [space] ?toks) min_len
        = filter (\<lambda>w. min_len \<le> int (length w)) ?toks"
      using ok by (simp add: clean_text_def [of "join [space] ?toks"] normalize_join)
    also have "\<dots> = ?toks" by (simp add: toks)
    finally show ?thesis .
  qed
qed

text \<open>
  Claim C5, as the code has it. For every text and every minimum length, every token is
  made of small ASCII letters only and is at least as long as the minimum length. With a
  minimum length of 1 or more every token has at least one letter. With a minimum length
  of 0 or less, a text without any letter gives exactly one token, the empty one; and the
  empty token occurs in no other case, and never beside another token.
\<close>

theorem clean_text_tokens:
  "(w \<in> set (clean_text text min_len) \<longrightarrow>
      (\<forall>c\<in>set w. is_lower c) \<and> min_len \<le> int (length w)
      \<and> (1 \<le> min_len \<longrightarrow> w \<noteq> [])
      \<and> (w = [] \<longrightarrow> clean_text text min_len = [[]]))
   \<and> (min_len \<le> 0 \<and> (\<forall>c\<in>set text. \<not> is_letter c) \<longrightarrow>
      clean_text text min_len = [[]])
   \<and> ([] \<in> set (clean_text text min_len) \<longleftrightarrow>
      min_len \<le> 0 \<and> (\<forall>c\<in>set text. \<not> is_letter c))"
proof (intro conjI impI)
  let ?ws = "split_on space (normalized text)"
  show wordless: "clean_text text min_len = [[]]"
    if "min_len \<le> 0 \<and> (\<forall>c\<in>set text. \<not> is_letter c)"
  proof -
    have "normalized text = []" using that by (simp add: normalized_Nil_iff)
    then show ?thesis using that by (simp add: clean_text_def)
  qed
  show "[] \<in> set (clean_text text min_len) \<longleftrightarrow>
      min_len \<le> 0 \<and> (\<forall>c\<in>set text. \<not> is_letter c)"
  proof
    assume e: "[] \<in> set (clean_text text min_len)"
    then have "[] \<in> set ?ws" and "min_len \<le> 0" by (auto simp: clean_text_def)
    then have "normalized text = []"
      using normalize_fields_nonempty [of "text"] by blast
    then show "min_len \<le> 0 \<and> (\<forall>c\<in>set text. \<not> is_letter c)"
      using \<open>min_len \<le> 0\<close> by (simp add: normalized_Nil_iff)
  next
    assume "min_len \<le> 0 \<and> (\<forall>c\<in>set text. \<not> is_letter c)"
    then show "[] \<in> set (clean_text text min_len)" using wordless by simp
  qed
  assume tok: "w \<in> set (clean_text text min_len)"
  then have w: "w \<in> set ?ws" and len: "min_len \<le> int (length w)"
    by (auto simp: clean_text_def)
  show "\<forall>c\<in>set w. is_lower c" using w by (rule normalize_fields_lower)
  show "min_len \<le> int (length w)" by (rule len)
  show "w \<noteq> []" if "1 \<le> min_len" using that len by auto
  show "clean_text text min_len = [[]]" if "w = []"
  proof -
    have "normalized text = []"
      using w that normalize_fields_nonempty [of "text"] by blast
    then show ?thesis using len that by (simp add: clean_text_def)
  qed
qed

theorem clean_text_tokens_witness:
  "''world'' \<in> set (clean_text ''Hi, World!'' 2)
   \<and> list_all is_lower ''world'' \<and> (2 :: int) \<le> int (length ''world'')
   \<and> (0 :: int) \<le> 0 \<and> list_all (\<lambda>c. \<not> is_letter c) ''12 + 3''
   \<and> clean_text ''12 + 3'' 0 = [[]]
   \<and> [] \<in> set (clean_text ''12 + 3'' 0)"
proof -
  have h: "''world'' \<in> set (clean_text ''Hi, World!'' 2)"
    by code_simp
  have n: "list_all (\<lambda>c. \<not> is_letter c) ''12 + 3''"
    by code_simp
  then have n': "(0 :: int) \<le> 0 \<and> (\<forall>c\<in>set ''12 + 3''. \<not> is_letter c)"
    by (simp add: list_all_iff)
  note first = clean_text_tokens [of "''world''" "''Hi, World!''" 2]
  note second = clean_text_tokens [of "[]" "''12 + 3''" 0]
  have a: "list_all is_lower ''world'' \<and> (2 :: int) \<le> int (length ''world'')"
    using h first by (simp add: list_all_iff)
  have b: "clean_text ''12 + 3'' 0 = [[]]"
    using n' second by blast
  have c: "[] \<in> set (clean_text ''12 + 3'' 0)"
    using n' second by blast
  show ?thesis using h a n b c by simp
qed

text \<open>
  With minimum length 0 the empty text gives one token, and that token has no letter.
\<close>

theorem clean_text_tokens_counterexample:
  "clean_text [] 0 = [[]]"
  by code_simp


section \<open>The claims on the run\<close>

text \<open>
  Claim C4. For every token sequence and every stopword set, and for every word with an
  entry in the raw table: the filtered count of the word (0 when the filtered table has no
  entry for it) is at most its raw count, and the two counts are equal exactly when the
  word is not a stopword.
\<close>

theorem raw_counts_dominate:
  assumes "map_of (raw_counts (count_and_render a stopwords all_words)) w = Some n"
  shows "counter_get (counts (count_and_render a stopwords all_words)) w \<le> n
    \<and> (counter_get (counts (count_and_render a stopwords all_words)) w = n
        \<longleftrightarrow> w \<notin> stopwords)"
proof -
  from assms have mem: "w \<in> set all_words" and n: "n = count_list all_words w"
    by (auto simp: count_and_render_def map_of_Counter split: if_splits)
  have "count_list all_words w \<noteq> 0"
    using mem by (simp add: count_list_0_iff)
  then have pos: "0 < n" using n by simp
  have filtered: "counter_get (counts (count_and_render a stopwords all_words)) w
      = count_list (filter (\<lambda>w. w \<notin> stopwords) all_words) w"
    by (simp add: count_and_render_def counter_get_Counter)
  show ?thesis
  proof (cases "w \<in> stopwords")
    case True
    then have "count_list (filter (\<lambda>w. w \<notin> stopwords) all_words) w = 0"
      by (simp add: count_list_filter_drop)
    then show ?thesis using True pos filtered by simp
  next
    case False
    then have "count_list (filter (\<lambda>w. w \<notin> stopwords) all_words) w = n"
      using n by (simp add: count_list_filter_keep)
    then show ?thesis using False filtered by simp
  qed
qed

theorem raw_counts_dominate_witness:
  "map_of (raw_counts (count_and_render example_args {''the''} [''the'', ''map'', ''the''])) ''the''
     = Some 2
   \<and> counter_get (counts (count_and_render example_args {''the''} [''the'', ''map'', ''the'']))
       ''the'' \<le> 2
   \<and> counter_get (counts (count_and_render example_args {''the''} [''the'', ''map'', ''the'']))
       ''the'' \<noteq> 2
   \<and> ''the'' \<in> {''the''}"
proof -
  have h: "map_of (raw_counts (count_and_render example_args {''the''}
      [''the'', ''map'', ''the''])) ''the'' = Some 2"
    by code_simp
  show ?thesis using h raw_counts_dominate [OF h] by simp
qed

text \<open>
  Claim C6. When the renderer is importable and the input path is a directory: the
  LaTeX list and the PDF list are the matching entries of the directory in sorted order;
  when both are empty the run fails with the no-input-files condition and exit code 1;
  when there is a LaTeX file the words come from the LaTeX files alone, in their order,
  and neither the PDF list nor the PDF extractor has a part in the result; the PDF files
  are read only when the LaTeX list is empty.
\<close>

theorem input_resolution:
  assumes "wordcloud e = Some builtin" and "fs e (args_input a) = Some (Dir names)"
  shows "tex_files e a = sort (map (child (args_input a)) (filter (has_suffix ''.tex'') names))
    \<and> pdfs e a = sort (map (child (args_input a)) (filter (has_suffix ''.pdf'') names))
    \<and> sorted (tex_files e a) \<and> sorted (pdfs e a)
    \<and> (tex_files e a = [] \<and> pdfs e a = [] \<longrightarrow>
         main e a = Failed NoInputFiles \<and> exit_code (main e a) = 1)
    \<and> (tex_files e a \<noteq> [] \<longrightarrow>
         main e a =
           (case build_stopwords e a builtin of
              Inl err \<Rightarrow> Failed err
            | Inr stopwords \<Rightarrow>
                (case tex_words e (args_min_len a) (tex_files e a) of
                   Inl err \<Rightarrow> Failed err
                 | Inr ws \<Rightarrow> Done (count_and_render a stopwords ws))))
    \<and> (tex_files e a = [] \<and> pdfs e a \<noteq> [] \<longrightarrow>
         main e a =
           (case build_stopwords e a builtin of
              Inl err \<Rightarrow> Failed err
            | Inr stopwords \<Rightarrow>
                (case pdfminer e of
                   None \<Rightarrow> Failed MissingPdfminer
                 | Some extract_text \<Rightarrow>
                     Done (count_and_render a stopwords
                       (pdf_words extract_text (args_min_len a) (pdfs e a))))))"
proof -
  have ex: "path_exists e (args_input a)"
    using assms(2) by (simp add: path_exists_def)
  have tex: "tex_files e a = sort (map (child (args_input a)) (filter (has_suffix ''.tex'') names))"
    using assms(2) by (simp add: tex_files_def glob_ext_dir)
  have pdf: "pdfs e a = sort (map (child (args_input a)) (filter (has_suffix ''.pdf'') names))"
    using assms(2) by (simp add: pdfs_def glob_ext_dir)
  have none: "main e a = Failed NoInputFiles \<and> exit_code (main e a) = 1"
    if "tex_files e a = [] \<and> pdfs e a = []"
    using that ex assms(1) by (simp add: main_def)
  have some_tex: "main e a =
      (case build_stopwords e a builtin of
         Inl err \<Rightarrow> Failed err
       | Inr stopwords \<Rightarrow>
           (case tex_words e (args_min_len a) (tex_files e a) of
              Inl err \<Rightarrow> Failed err
            | Inr ws \<Rightarrow> Done (count_and_render a stopwords ws)))"
    if "tex_files e a \<noteq> []"
    using that ex assms(1) by (simp add: main_def collect_words_def split: sum.splits)
  have only_pdf: "main e a =
      (case build_stopwords e a builtin of
         Inl err \<Rightarrow> Failed err
       | Inr stopwords \<Rightarrow>
           (case pdfminer e of
              None \<Rightarrow> Failed MissingPdfminer
            | Some extract_text \<Rightarrow>
                Done (count_and_render a stopwords
                  (pdf_words extract_text (args_min_len a) (pdfs e a)))))"
    if "tex_files e a = [] \<and> pdfs e a \<noteq> []"
    using that ex assms(1)
    by (simp add: main_def collect_words_def split: sum.splits option.splits)
  have "sorted (tex_files e a)" "sorted (pdfs e a)"
    by (simp_all add: tex_files_def pdfs_def)
  then show ?thesis using tex pdf none some_tex only_pdf by blast
qed

theorem input_resolution_witness:
  "wordcloud example_env = Some {''the'', ''and''}
   \<and> fs example_env (args_input example_args)
       = Some (Dir [''b.tex'', ''a.tex'', ''notes.pdf'', ''README''])
   \<and> tex_files example_env example_args = [''papers/a.tex'', ''papers/b.tex'']
   \<and> pdfs example_env example_args = [''papers/notes.pdf'']
   \<and> main example_env example_args =
       Done \<lparr> saved_to = ''wordcloud.png'',
              raw_counts = [(''graphs'', 2), (''and'', 1), (''trees'', 1), (''the'', 1)],
              counts = [(''graphs'', 2), (''trees'', 1)] \<rparr>
   \<and> fs example_env (args_input (example_args\<lparr>args_input := ''scans''\<rparr>))
       = Some (Dir [''z.pdf'', ''k.pdf''])
   \<and> tex_files example_env (example_args\<lparr>args_input := ''scans''\<rparr>) = []
   \<and> pdfs example_env (example_args\<lparr>args_input := ''scans''\<rparr>)
       = [''scans/k.pdf'', ''scans/z.pdf'']
   \<and> main example_env (example_args\<lparr>args_input := ''scans''\<rparr>) =
       Done \<lparr> saved_to = ''wordcloud.png'',
              raw_counts = [(''text'', 2), (''scans'', 2), (''pdf'', 2)],
              counts = [(''text'', 2), (''scans'', 2), (''pdf'', 2)] \<rparr>
   \<and> fs example_env (args_input (example_args\<lparr>args_input := ''empty''\<rparr>))
       = Some (Dir [''README''])
   \<and> main example_env (example_args\<lparr>args_input := ''empty''\<rparr>) = Failed NoInputFiles
   \<and> exit_code (main example_env (example_args\<lparr>args_input := ''empty''\<rparr>)) = 1"
proof -
  let ?scans = "example_args\<lparr>args_input := ''scans''\<rparr>"
  let ?empty = "example_args\<lparr>args_input := ''empty''\<rparr>"
  have h1: "wordcloud example_env = Some {''the'', ''and''}"
    by (simp add: example_env_def)
  have h2: "fs example_env (args_input example_args)
      = Some (Dir [''b.tex'', ''a.tex'', ''notes.pdf'', ''README''])"
    by (simp add: example_env_def example_args_def example_fs_def)
  have h3: "fs example_env (args_input ?scans) = Some (Dir [''z.pdf'', ''k.pdf''])"
    by (simp add: example_env_def example_fs_def)
  have h4: "fs example_env (args_input ?empty) = Some (Dir [''README''])"
    by (simp add: example_env_def example_fs_def)
  note papers = input_resolution [OF h1 h2]
  note scans = input_resolution [OF h1 h3]
  note empty = input_resolution [OF h1 h4]
  have "sort (map (child (args_input example_args))
      (filter (has_suffix ''.tex'') [''b.tex'', ''a.tex'', ''notes.pdf'', ''README'']))
      = [''papers/a.tex'', ''papers/b.tex'']"
    by code_simp
  then have tex: "tex_files example_env example_args = [''papers/a.tex'', ''papers/b.tex'']"
    using papers by simp
  have "sort (map (child (args_input example_args))
      (filter (has_suffix ''.pdf'') [''b.tex'', ''a.tex'', ''notes.pdf'', ''README'']))
      = [''papers/notes.pdf'']"
    by code_simp
  then have pdf: "pdfs example_env example_args = [''papers/notes.pdf'']"
    using papers by simp
  have run: "main example_env example_args =
      Done \<lparr> saved_to = ''wordcloud.png'',
             raw_counts = [(''graphs'', 2), (''and'', 1), (''trees'', 1), (''the'', 1)],
             counts = [(''graphs'', 2), (''trees'', 1)] \<rparr>"
    by code_simp
  have "sort (map (child (args_input ?scans)) (filter (has_suffix ''.tex'') [''z.pdf'', ''k.pdf'']))
      = []"
    by code_simp
  then have scans_tex: "tex_files example_env ?scans = []"
    using scans by simp
  have "sort (map (child (args_input ?scans)) (filter (has_suffix ''.pdf'') [''z.pdf'', ''k.pdf'']))
      = [''scans/k.pdf'', ''scans/z.pdf'']"
    by code_simp
  then have scans_pdf: "pdfs example_env ?scans = [''scans/k.pdf'', ''scans/z.pdf'']"
    using scans by simp
  have scans_run: "main example_env ?scans =
      Done \<lparr> saved_to = ''wordcloud.png'',
             raw_counts = [(''text'', 2), (''scans'', 2), (''pdf'', 2)],
             counts = [(''text'', 2), (''scans'', 2), (''pdf'', 2)] \<rparr>"
    by code_simp
  have "sort (map (child (args_input ?empty)) (filter (has_suffix ''.tex'') [''README''])) = []"
    and "sort (map (child (args_input ?empty)) (filter (has_suffix ''.pdf'') [''README''])) = []"
    by code_simp+
  then have "tex_files example_env ?empty = [] \<and> pdfs example_env ?empty = []"
    using empty by simp
  then have empty_run: "main example_env ?empty = Failed NoInputFiles
      \<and> exit_code (main example_env ?empty) = 1"
    using empty by blast
  show ?thesis
    using h1 h2 h3 h4 tex pdf run scans_tex scans_pdf scans_run empty_run by simp
qed

text \<open>
  Claim C7. When a stopwords path is given and does not exist, the stopword step fails
  with the file-not-found condition, the run ends with exit code 1 whatever else holds,
  and the condition it reports is that one whenever the run gets as far as the stopword
  step. When no path is given and the fallback file beside the script folder is absent,
  the stopword step does not fail: it yields the built-in words with the extra words, the
  run never reports the file-not-found condition, and it goes on to collect the words.
\<close>

theorem stopwords_file_lookup:
  "(args_stopwords a \<noteq> [] \<and> \<not> path_exists e (args_stopwords a) \<longrightarrow>
      build_stopwords e a builtin = Inl StopwordsNotFound
      \<and> exit_code (main e a) = 1 \<and> png_written (main e a) = None
      \<and> (wordcloud e \<noteq> None \<and> path_exists e (args_input a)
           \<and> \<not> (tex_files e a = [] \<and> pdfs e a = []) \<longrightarrow>
         main e a = Failed StopwordsNotFound))
   \<and> (args_stopwords a' = [] \<and> \<not> path_exists e' (fallback_stop_path e') \<longrightarrow>
      build_stopwords e' a' builtin' = Inr (add_extra a' builtin')
      \<and> main e' a' \<noteq> Failed StopwordsNotFound
      \<and> (wordcloud e' = Some builtin' \<and> path_exists e' (args_input a')
           \<and> \<not> (tex_files e' a' = [] \<and> pdfs e' a' = []) \<longrightarrow>
         main e' a' =
           (case collect_words e' a' (tex_files e' a') (pdfs e' a') of
              Inl err \<Rightarrow> Failed err
            | Inr ws \<Rightarrow> Done (count_and_render a' (add_extra a' builtin') ws))))"
proof (intro conjI impI)
  assume given: "args_stopwords a \<noteq> [] \<and> \<not> path_exists e (args_stopwords a)"
  then show bs: "build_stopwords e a builtin = Inl StopwordsNotFound"
    by (simp add: build_stopwords_def)
  have any: "build_stopwords e a b = Inl StopwordsNotFound" for b
    using given by (simp add: build_stopwords_def)
  then have "\<exists>err. main e a = Failed err"
    by (auto simp: main_def split: option.splits)
  then show "exit_code (main e a) = 1" "png_written (main e a) = None"
    by auto
  assume "wordcloud e \<noteq> None \<and> path_exists e (args_input a)
    \<and> \<not> (tex_files e a = [] \<and> pdfs e a = [])"
  then show "main e a = Failed StopwordsNotFound"
    using any by (auto simp: main_def)
next
  assume given: "args_stopwords a' = [] \<and> \<not> path_exists e' (fallback_stop_path e')"
  then show "build_stopwords e' a' builtin' = Inr (add_extra a' builtin')"
    by (simp add: build_stopwords_def)
  have any: "build_stopwords e' a' b = Inr (add_extra a' b)" for b
    using given by (simp add: build_stopwords_def)
  show "main e' a' \<noteq> Failed StopwordsNotFound"
    using any
    by (auto simp: main_def split: option.splits sum.splits dest!: collect_words_failure)
  assume "wordcloud e' = Some builtin' \<and> path_exists e' (args_input a')
    \<and> \<not> (tex_files e' a' = [] \<and> pdfs e' a' = [])"
  then show "main e' a' =
      (case collect_words e' a' (tex_files e' a') (pdfs e' a') of
         Inl err \<Rightarrow> Failed err
       | Inr ws \<Rightarrow> Done (count_and_render a' (add_extra a' builtin') ws))"
    using any by (auto simp: main_def)
qed

theorem stopwords_file_lookup_witness:
  "args_stopwords missing_stop_args \<noteq> []
   \<and> \<not> path_exists example_env (args_stopwords missing_stop_args)
   \<and> main example_env missing_stop_args = Failed StopwordsNotFound
   \<and> exit_code (main example_env missing_stop_args) = 1
   \<and> args_stopwords example_args = []
   \<and> \<not> path_exists example_env (fallback_stop_path example_env)
   \<and> build_stopwords example_env example_args {''the'', ''and''} = Inr {''the'', ''and''}
   \<and> exit_code (main example_env example_args) = 0"
proof -
  have a1: "args_stopwords missing_stop_args \<noteq> []
      \<and> \<not> path_exists example_env (args_stopwords missing_stop_args)"
    by (simp add: missing_stop_args_def example_args_def path_exists_def example_env_def
        example_fs_def)
  have a2: "wordcloud example_env \<noteq> None \<and> path_exists example_env (args_input missing_stop_args)
      \<and> \<not> (tex_files example_env missing_stop_args = [] \<and> pdfs example_env missing_stop_args = [])"
    by code_simp
  have b1: "args_stopwords example_args = []
      \<and> \<not> path_exists example_env (fallback_stop_path example_env)"
    by code_simp
  have b2: "add_extra example_args {''the'', ''and''} = {''the'', ''and''}"
    by (simp add: add_extra_def example_args_def)
  have b3: "exit_code (main example_env example_args) = 0"
    by code_simp
  note look = stopwords_file_lookup [where a = missing_stop_args and e = example_env
      and a' = example_args and e' = example_env and builtin' = "{''the'', ''and''}"]
  show ?thesis using a1 a2 b1 b2 b3 look by simp
qed

text \<open>
  Claim C8. When the input path does not exist the run ends with exit code 1 and no image
  is written; with the renderer importable the reported condition is that the input folder
  was not found.
\<close>

theorem missing_input_fails:
  assumes "\<not> path_exists e (args_input a)"
  shows "exit_code (main e a) = 1 \<and> png_written (main e a) = None
    \<and> (wordcloud e \<noteq> None \<longrightarrow> main e a = Failed InputNotFound)"
  using assms by (auto simp: main_def split: option.splits)

theorem missing_input_fails_witness:
  "\<not> path_exists example_env (args_input (example_args\<lparr>args_input := ''nowhere''\<rparr>))
   \<and> exit_code (main example_env (example_args\<lparr>args_input := ''nowhere''\<rparr>)) = 1
   \<and> png_written (main example_env (example_args\<lparr>args_input := ''nowhere''\<rparr>)) = None
   \<and> main example_env (example_args\<lparr>args_input := ''nowhere''\<rparr>) = Failed InputNotFound"
proof -
  have h: "\<not> path_exists example_env (args_input (example_args\<lparr>args_input := ''nowhere''\<rparr>))"
    by (simp add: path_exists_def example_env_def example_fs_def)
  have w: "wordcloud example_env \<noteq> None"
    by (simp add: example_env_def)
  show ?thesis using h w missing_input_fails [OF h] by simp
qed

text \<open>
  Claim C9. When the input path is a regular file, the existence check passes, the run does
  not report a missing input folder, and it ends with exit code 1 without writing an
  image; with the renderer importable the reported condition is that no LaTeX or PDF file
  was found, since a path that is not a directory has no entries.
\<close>

theorem input_file_not_directory:
  assumes "fs e (args_input a) = Some (File s)"
  shows "path_exists e (args_input a) \<and> main e a \<noteq> Failed InputNotFound
    \<and> exit_code (main e a) = 1 \<and> png_written (main e a) = None
    \<and> (wordcloud e \<noteq> None \<longrightarrow> main e a = Failed NoInputFiles)"
  using assms
  by (auto simp: main_def path_exists_def tex_files_def pdfs_def glob_ext_file
      split: option.splits)

theorem input_file_not_directory_witness:
  "fs example_env (args_input (example_args\<lparr>args_input := ''list.txt''\<rparr>))
     = Some (File ''The\<newline> and \<newline>'')
   \<and> path_exists example_env (args_input (example_args\<lparr>args_input := ''list.txt''\<rparr>))
   \<and> exit_code (main example_env (example_args\<lparr>args_input := ''list.txt''\<rparr>)) = 1
   \<and> main example_env (example_args\<lparr>args_input := ''list.txt''\<rparr>) = Failed NoInputFiles"
proof -
  have h: "fs example_env (args_input (example_args\<lparr>args_input := ''list.txt''\<rparr>))
      = Some (File ''The\<newline> and \<newline>'')"
    by (simp add: example_env_def example_fs_def)
  have w: "wordcloud example_env \<noteq> None"
    by (simp add: example_env_def)
  show ?thesis using h w input_file_not_directory [OF h] by simp
qed

text \<open>
  Claim C10. Take two runs over the same input folder with the same LaTeX files, the same
  PDF extractor and the same minimum length, whatever their stopwords files, extra
  stopwords and built-in stopwords are. When both reach the counting their raw tables are
  the same. When the first reaches the counting and the renderer is importable in the
  second, the second reaches the counting too, with the same raw table, unless its own
  stopword step fails.
\<close>

theorem raw_counts_independent:
  assumes "args_input a1 = args_input a2" and "args_min_len a1 = args_min_len a2"
    and "pdfminer e1 = pdfminer e2"
    and "fs e1 (args_input a1) = fs e2 (args_input a1)"
    and "\<And>p. p \<in> set (tex_files e1 a1) \<Longrightarrow> fs e1 p = fs e2 p"
  shows "(main e1 a1 = Done r1 \<and> main e2 a2 = Done r2 \<longrightarrow> raw_counts r1 = raw_counts r2)
    \<and> (main e1 a1 = Done r1 \<and> wordcloud e2 = Some builtin2 \<longrightarrow>
          (\<exists>r2. main e2 a2 = Done r2 \<and> raw_counts r2 = raw_counts r1)
          \<or> (\<exists>err. build_stopwords e2 a2 builtin2 = Inl err \<and> main e2 a2 = Failed err))"
proof -
  have tex: "tex_files e2 a2 = tex_files e1 a1"
    using assms(1,4) by (simp add: tex_files_def glob_ext_def)
  have pdf: "pdfs e2 a2 = pdfs e1 a1"
    using assms(1,4) by (simp add: pdfs_def glob_ext_def)
  have "tex_words e1 (args_min_len a1) (tex_files e1 a1)
      = tex_words e2 (args_min_len a1) (tex_files e1 a1)"
    using assms(5) by (rule tex_words_cong)
  then have same: "collect_words e1 a1 (tex_files e1 a1) (pdfs e1 a1)
      = collect_words e2 a2 (tex_files e2 a2) (pdfs e2 a2)"
    using assms(2,3) tex pdf by (simp add: collect_words_def split: option.splits)
  have both: "raw_counts r1 = raw_counts r2"
    if run1: "main e1 a1 = Done r1" and run2: "main e2 a2 = Done r2"
  proof -
    obtain s1 ws1 where r1: "collect_words e1 a1 (tex_files e1 a1) (pdfs e1 a1) = Inr ws1"
        "r1 = count_and_render a1 s1 ws1"
      using main_Done [OF run1] by blast
    obtain s2 ws2 where r2: "collect_words e2 a2 (tex_files e2 a2) (pdfs e2 a2) = Inr ws2"
        "r2 = count_and_render a2 s2 ws2"
      using main_Done [OF run2] by blast
    have "ws1 = ws2" using same r1(1) r2(1) by simp
    then show ?thesis using r1(2) r2(2) by (simp add: count_and_render_def)
  qed
  have second: "(\<exists>r2. main e2 a2 = Done r2 \<and> raw_counts r2 = raw_counts r1)
      \<or> (\<exists>err. build_stopwords e2 a2 builtin2 = Inl err \<and> main e2 a2 = Failed err)"
    if run1: "main e1 a1 = Done r1" and wc: "wordcloud e2 = Some builtin2"
  proof -
    obtain s1 ws1 where r1: "collect_words e1 a1 (tex_files e1 a1) (pdfs e1 a1) = Inr ws1"
        "r1 = count_and_render a1 s1 ws1"
      using main_Done [OF run1] by blast
    have "path_exists e1 (args_input a1)" "\<not> (tex_files e1 a1 = [] \<and> pdfs e1 a1 = [])"
      using main_Done_inputs [OF run1] by simp_all
    then have reach: "path_exists e2 (args_input a2)"
        "\<not> (tex_files e2 a2 = [] \<and> pdfs e2 a2 = [])"
      using assms(1,4) tex pdf by (simp_all add: path_exists_def)
    note run2 = main_reaches_stopwords [OF wc reach]
    show ?thesis
    proof (cases "build_stopwords e2 a2 builtin2")
      case (Inl err)
      then have "main e2 a2 = Failed err" using run2 by simp
      then show ?thesis using Inl by blast
    next
      case (Inr s2)
      have "collect_words e2 a2 (tex_files e2 a2) (pdfs e2 a2) = Inr ws1"
        using same r1(1) by simp
      then have "main e2 a2 = Done (count_and_render a2 s2 ws1)"
        using run2 Inr by simp
      moreover have "raw_counts (count_and_render a2 s2 ws1) = raw_counts r1"
        using r1(2) by (simp add: count_and_render_def)
      ultimately show ?thesis by blast
    qed
  qed
  show ?thesis using both second by blast
qed

theorem raw_counts_independent_witness:
  "main example_env stop_args =
     Done \<lparr> saved_to = ''wordcloud.png'',
            raw_counts = [(''graphs'', 2), (''and'', 1), (''trees'', 1), (''the'', 1)],
            counts = [(''graphs'', 2), (''trees'', 1)] \<rparr>
   \<and> main other_stop_env (stop_args\<lparr>args_extra_stopwords := ''and''\<rparr>) =
     Done \<lparr> saved_to = ''wordcloud.png'',
            raw_counts = [(''graphs'', 2), (''and'', 1), (''trees'', 1), (''the'', 1)],
            counts = [(''graphs'', 2)] \<rparr>
   \<and> raw_counts \<lparr> saved_to = ''wordcloud.png'',
            raw_counts = [(''graphs'', 2), (''and'', 1), (''trees'', 1), (''the'', 1)],
            counts = [(''graphs'', 2), (''trees'', 1)] \<rparr>
     = raw_counts \<lparr> saved_to = ''wordcloud.png'',
            raw_counts = [(''graphs'', 2), (''and'', 1), (''trees'', 1), (''the'', 1)],
            counts = [(''graphs'', 2)] \<rparr>
   \<and> wordcloud other_stop_env = Some {''the'', ''and''}"
proof -
  let ?r1 = "\<lparr> saved_to = ''wordcloud.png'',
      raw_counts = [(''graphs'', 2), (''and'', 1), (''trees'', 1), (''the'', 1 :: nat)],
      counts = [(''graphs'', 2), (''trees'', 1 :: nat)] \<rparr>"
  let ?r2 = "\<lparr> saved_to = ''wordcloud.png'',
      raw_counts = [(''graphs'', 2), (''and'', 1), (''trees'', 1), (''the'', 1 :: nat)],
      counts = [(''graphs'', 2 :: nat)] \<rparr>"
  let ?a2 = "stop_args\<lparr>args_extra_stopwords := ''and''\<rparr>"
  have run1: "main example_env stop_args = Done ?r1"
    by code_simp
  have run2: "main other_stop_env ?a2 = Done ?r2"
    by code_simp
  have tex: "tex_files example_env stop_args = [''papers/a.tex'', ''papers/b.tex'']"
    by code_simp
  have same_files: "fs example_env p = fs other_stop_env p"
    if "p \<in> set (tex_files example_env stop_args)" for p
  proof -
    have "p \<noteq> ''list.txt''" using that unfolding tex by auto
    then show ?thesis by (simp add: other_stop_env_def example_env_def)
  qed
  have "args_input stop_args = args_input ?a2"
    and "args_min_len stop_args = args_min_len ?a2"
    by simp_all
  moreover have "pdfminer example_env = pdfminer other_stop_env"
    by (simp add: other_stop_env_def)
  moreover have "fs example_env (args_input stop_args) = fs other_stop_env (args_input stop_args)"
    by (simp add: other_stop_env_def example_env_def stop_args_def example_args_def)
  ultimately have "main example_env stop_args = Done ?r1 \<and> main other_stop_env ?a2 = Done ?r2
      \<longrightarrow> raw_counts ?r1 = raw_counts ?r2"
    using same_files
      raw_counts_independent [where ?a1.0 = stop_args and ?a2.0 = ?a2 and ?e1.0 = example_env
        and ?e2.0 = other_stop_env and ?r1.0 = ?r1 and ?r2.0 = ?r2]
    by blast
  then have eq: "raw_counts ?r1 = raw_counts ?r2"
    using run1 run2 by blast
  have builtin: "wordcloud other_stop_env = Some {''the'', ''and''}"
    by (simp add: other_stop_env_def example_env_def)
  show ?thesis
    by (intro conjI) (rule run1, rule run2, rule eq, rule builtin)
qed

end
